theory Spec2Isabelle
  imports Complex_Main "HOL-Library.Monad_Syntax"
begin

section \<open>Numbers\<close>

text \<open>
  The amounts and balances of \<^verbatim>\<open>splitlogic.py\<close> are Python floats. A finite float is
  modelled by the exact rational number it denotes, and arithmetic on finite values is
  exact; the two infinities and NaN, which \<^verbatim>\<open>float(...)\<close> parses and which arithmetic
  propagates, are kept as values of their own, with the IEEE rules for them
  (\<open>inf - inf\<close> is NaN, every comparison with NaN is false). The rounding error and
  the overflow of binary64 arithmetic on finite values are not part of the model.
\<close>

datatype pyfloat = Fin rat | PInf | NInf | NaN

fun is_finite :: "pyfloat \<Rightarrow> bool" where
  "is_finite (Fin x) = True"
| "is_finite _ = False"

fun fneg :: "pyfloat \<Rightarrow> pyfloat" where
  "fneg (Fin x) = Fin (- x)"
| "fneg PInf = NInf"
| "fneg NInf = PInf"
| "fneg NaN = NaN"

fun fadd :: "pyfloat \<Rightarrow> pyfloat \<Rightarrow> pyfloat" where
  "fadd (Fin x) (Fin y) = Fin (x + y)"
| "fadd NaN _ = NaN"
| "fadd _ NaN = NaN"
| "fadd PInf NInf = NaN"
| "fadd NInf PInf = NaN"
| "fadd PInf _ = PInf"
| "fadd NInf _ = NInf"
| "fadd _ PInf = PInf"
| "fadd _ NInf = NInf"

definition fsub :: "pyfloat \<Rightarrow> pyfloat \<Rightarrow> pyfloat" where
  "fsub a b = fadd a (fneg b)"

text \<open>\<^verbatim>\<open>a < b\<close> on floats; \<^verbatim>\<open>a > b\<close> is \<open>flt b a\<close>.\<close>

fun flt :: "pyfloat \<Rightarrow> pyfloat \<Rightarrow> bool" where
  "flt (Fin x) (Fin y) = (x < y)"
| "flt NaN _ = False"
| "flt _ NaN = False"
| "flt NInf NInf = False"
| "flt NInf _ = True"
| "flt PInf _ = False"
| "flt _ PInf = True"
| "flt _ NInf = False"

text \<open>\<^verbatim>\<open>total / n\<close> for a positive integer \<open>n\<close>.\<close>

fun fdiv_nat :: "pyfloat \<Rightarrow> nat \<Rightarrow> pyfloat" where
  "fdiv_nat (Fin x) n = Fin (x / of_nat n)"
| "fdiv_nat v n = v"

text \<open>\<^verbatim>\<open>min(a, b)\<close> keeps its first argument unless the second is smaller.\<close>

definition py_min :: "pyfloat \<Rightarrow> pyfloat \<Rightarrow> pyfloat" where
  "py_min a b = (if flt b a then b else a)"

text \<open>
  \<^verbatim>\<open>round(x, 2)\<close>: the nearest multiple of 1/100, a tie going to the even one;
  infinities and NaN round to themselves.
\<close>

definition round_half_even :: "rat \<Rightarrow> int" where
  "round_half_even x =
     (let f = \<lfloor>x\<rfloor>; r = x - of_int f
      in if r < 1 / 2 then f else if 1 / 2 < r then f + 1
         else if even f then f else f + 1)"

fun round2 :: "pyfloat \<Rightarrow> pyfloat" where
  "round2 (Fin x) = Fin (of_int (round_half_even (x * 100)) / 100)"
| "round2 v = v"

text \<open>\<^verbatim>\<open>sum(amounts)\<close>: a left-to-right sum starting from 0.\<close>

definition py_sum :: "pyfloat list \<Rightarrow> pyfloat" where
  "py_sum xs = foldl fadd (Fin 0) xs"

section \<open>Dictionaries\<close>

text \<open>
  A Python dict keeps its keys in insertion order: an association list with distinct keys.
  \<^verbatim>\<open>d[k] = v\<close> overwrites the value of a key that is present, in place, and appends a
  new key at the end.
\<close>

type_synonym pydict = "(string \<times> pyfloat) list"

fun setitem :: "pydict \<Rightarrow> string \<Rightarrow> pyfloat \<Rightarrow> pydict" where
  "setitem [] k v = [(k, v)]"
| "setitem ((k', v') # d) k v = (if k' = k then (k, v) # d else (k', v') # setitem d k v)"


section \<open>Balance calculator\<close>

text \<open>
  \<^verbatim>\<open>
  total_expense = sum(amounts)
  n = len(names)
  equal_share = total_expense / n if n > 0 else 0.0
  balances = {}
  for name, amt in zip(names, amounts):
      balances[name] = round(amt - equal_share, 2)
  return total_expense, equal_share, balances
  \<close>
\<close>

fun fill_balances :: "pydict \<Rightarrow> pyfloat \<Rightarrow> (string \<times> pyfloat) list \<Rightarrow> pydict" where
  "fill_balances balances equal_share [] = balances"
| "fill_balances balances equal_share ((name, amt) # rest) =
     fill_balances (setitem balances name (round2 (fsub amt equal_share))) equal_share rest"

definition compute_balances :: "string list \<Rightarrow> pyfloat list \<Rightarrow> pyfloat \<times> pyfloat \<times> pydict" where
  "compute_balances names amounts =
     (let total_expense = py_sum amounts;
          n = length names;
          equal_share = (if n > 0 then fdiv_nat total_expense n else Fin 0);
          balances = fill_balances [] equal_share (zip names amounts)
      in (total_expense, equal_share, balances))"

section \<open>Settlement engine\<close>

type_synonym entry = "string \<times> pyfloat"
type_synonym transaction = "string \<times> string \<times> pyfloat"

text \<open>
  The first loop of \<^verbatim>\<open>settle_debts\<close>:
  \<^verbatim>\<open>
  for name, bal in balances.items():
      if bal > 0.01:
          creditors.append([name, bal])
      elif bal < -0.01:
          debtors.append([name, -bal])
  \<close>
\<close>

fun partition_balances :: "entry list \<Rightarrow> entry list \<Rightarrow> pydict \<Rightarrow> entry list \<times> entry list" where
  "partition_balances creditors debtors [] = (creditors, debtors)"
| "partition_balances creditors debtors ((name, bal) # rest) =
     (if flt (Fin (1 / 100)) bal then partition_balances (creditors @ [(name, bal)]) debtors rest
      else if flt bal (Fin (- (1 / 100))) then
        partition_balances creditors (debtors @ [(name, fneg bal)]) rest
      else partition_balances creditors debtors rest)"

text \<open>
  \<^verbatim>\<open>xs.sort(key=lambda x: x[1], reverse=True)\<close>: a stable sort, largest amount first;
  entries with equal amounts keep their order.
\<close>

fun insert_desc :: "'a \<times> pyfloat \<Rightarrow> ('a \<times> pyfloat) list \<Rightarrow> ('a \<times> pyfloat) list" where
  "insert_desc x [] = [x]"
| "insert_desc x (y # ys) =
     (if flt (snd x) (snd y) then y # insert_desc x ys else x # y # ys)"

definition sort_desc :: "('a \<times> pyfloat) list \<Rightarrow> ('a \<times> pyfloat) list" where
  "sort_desc xs = foldr insert_desc xs []"

text \<open>
  One pass through the body of the two-pointer loop, for \<open>i\<close> and \<open>j\<close> in range:
  \<^verbatim>\<open>
  debtor_name, debtor_owes = debtors[i]
  creditor_name, creditor_receives = creditors[j]
  amount = round(min(debtor_owes, creditor_receives), 2)
  if amount > 0:
      transactions.append((debtor_name, creditor_name, amount))
  debtor_owes = round(debtor_owes - amount, 2)
  creditor_receives = round(creditor_receives - amount, 2)
  debtors[i][1] = debtor_owes
  creditors[j][1] = creditor_receives
  if debtor_owes < 0.01:
      i += 1
  if creditor_receives < 0.01:
      j += 1
  \<close>
\<close>

definition sweep_step ::
  "entry list \<Rightarrow> entry list \<Rightarrow> nat \<Rightarrow> nat \<Rightarrow> transaction list \<Rightarrow>
   entry list \<times> entry list \<times> nat \<times> nat \<times> transaction list" where
  "sweep_step debtors creditors i j transactions =
     (let (debtor_name, debtor_owes) = debtors ! i;
          (creditor_name, creditor_receives) = creditors ! j;
          amount = round2 (py_min debtor_owes creditor_receives);
          transactions' = (if flt (Fin 0) amount
                           then transactions @ [(debtor_name, creditor_name, amount)]
                           else transactions);
          debtor_owes' = round2 (fsub debtor_owes amount);
          creditor_receives' = round2 (fsub creditor_receives amount)
      in (debtors[i := (debtor_name, debtor_owes')],
          creditors[j := (creditor_name, creditor_receives')],
          (if flt debtor_owes' (Fin (1 / 100)) then i + 1 else i),
          (if flt creditor_receives' (Fin (1 / 100)) then j + 1 else j),
          transactions'))"

text \<open>
  \<^verbatim>\<open>while i < len(debtors) and j < len(creditors): ...\<close>; \<open>None\<close> is a loop that
  never ends.
\<close>

partial_function (option) sweep ::
  "entry list \<Rightarrow> entry list \<Rightarrow> nat \<Rightarrow> nat \<Rightarrow> transaction list \<Rightarrow> transaction list option" where
  "sweep debtors creditors i j transactions =
     (if i < length debtors \<and> j < length creditors then
        (case sweep_step debtors creditors i j transactions of
           (debtors', creditors', i', j', transactions') \<Rightarrow>
             sweep debtors' creditors' i' j' transactions')
      else Some transactions)"

declare sweep.simps [code]

definition settle_debts :: "pydict \<Rightarrow> transaction list option" where
  "settle_debts balances =
     (let (creditors, debtors) = partition_balances [] [] balances
      in sweep (sort_desc debtors) (sort_desc creditors) 0 0 [])"

section \<open>Notions used to state the properties\<close>

text \<open>A value that is a finite number or plus infinity: what the partition stores.\<close>

definition fin_or_pinf :: "pyfloat \<Rightarrow> bool" where
  "fin_or_pinf v = (v \<noteq> NaN \<and> v \<noteq> NInf)"

definition all_finite :: "entry list \<Rightarrow> bool" where
  "all_finite xs = (\<forall>e \<in> set xs. is_finite (snd e))"

text \<open>
  The number of creditors (entries with balance > 0.01) and of debtors (entries with
  balance < -0.01) of a mapping.
\<close>

definition creditor_count :: "pydict \<Rightarrow> nat" where
  "creditor_count balances = length (filter (\<lambda>(name, bal). flt (Fin (1 / 100)) bal) balances)"

definition debtor_count :: "pydict \<Rightarrow> nat" where
  "debtor_count balances = length (filter (\<lambda>(name, bal). flt bal (Fin (- (1 / 100)))) balances)"

text \<open>The two lists that the first loop of \<^verbatim>\<open>settle_debts\<close> builds, as filters.\<close>

definition creditors_of :: "pydict \<Rightarrow> entry list" where
  "creditors_of balances = filter (\<lambda>(name, bal). flt (Fin (1 / 100)) bal) balances"

definition debtors_of :: "pydict \<Rightarrow> entry list" where
  "debtors_of balances =
     map (\<lambda>(name, bal). (name, fneg bal))
       (filter (\<lambda>(name, bal). flt bal (Fin (- (1 / 100)))) balances)"










section \<open>The same functions on a store of objects\<close>

text \<open>
  To speak about what a call leaves behind, the mutable objects of the program are put
  into a store: the dict of balances, the lists \<^verbatim>\<open>creditors\<close> and \<^verbatim>\<open>debtors\<close>, which hold
  references, and the two-element lists \<^verbatim>\<open>[name, amount]\<close> they refer to. An address is
  an index into the store, and a new object is put at its end. Strings, floats and tuples
  are immutable and stay values. A result \<open>None\<close> is a call that does not return.
\<close>

type_synonym addr = nat

datatype obj = DictObj pydict | CellObj string pyfloat | ListObj "addr list"

type_synonym store = "obj list"

definition new :: "store \<Rightarrow> obj \<Rightarrow> store \<times> addr" where
  "new h x = (h @ [x], length h)"

definition get_dict :: "store \<Rightarrow> addr \<Rightarrow> pydict option" where
  "get_dict h a =
     (if a < length h then (case h ! a of DictObj d \<Rightarrow> Some d | _ \<Rightarrow> None) else None)"

definition get_cell :: "store \<Rightarrow> addr \<Rightarrow> (string \<times> pyfloat) option" where
  "get_cell h a =
     (if a < length h then (case h ! a of CellObj name v \<Rightarrow> Some (name, v) | _ \<Rightarrow> None)
      else None)"

definition get_list :: "store \<Rightarrow> addr \<Rightarrow> addr list option" where
  "get_list h a =
     (if a < length h then (case h ! a of ListObj rs \<Rightarrow> Some rs | _ \<Rightarrow> None) else None)"

text \<open>\<^verbatim>\<open>xs.append(ref)\<close> on the list object at \<open>l\<close>.\<close>

definition list_append :: "store \<Rightarrow> addr \<Rightarrow> addr \<Rightarrow> store option" where
  "list_append h l r = do { rs \<leftarrow> get_list h l; Some (h[l := ListObj (rs @ [r])]) }"

text \<open>\<^verbatim>\<open>cell[1] = v\<close> on the two-element list at \<open>p\<close>: its name stays.\<close>

definition set_amount :: "store \<Rightarrow> addr \<Rightarrow> pyfloat \<Rightarrow> store option" where
  "set_amount h p v = do { (name, old) \<leftarrow> get_cell h p; Some (h[p := CellObj name v]) }"

text \<open>\<^verbatim>\<open>d[name] = v\<close> on the dict object at \<open>a\<close>.\<close>

definition dict_store :: "store \<Rightarrow> addr \<Rightarrow> string \<Rightarrow> pyfloat \<Rightarrow> store option" where
  "dict_store h a name v = do { d \<leftarrow> get_dict h a; Some (h[a := DictObj (setitem d name v)]) }"

text \<open>The loop of \<^verbatim>\<open>compute_balances\<close>, writing into the dict at \<open>a\<close>.\<close>

fun fill_store :: "store \<Rightarrow> addr \<Rightarrow> pyfloat \<Rightarrow> (string \<times> pyfloat) list \<Rightarrow> store option" where
  "fill_store h a equal_share [] = Some h"
| "fill_store h a equal_share ((name, amt) # rest) =
     do { h' \<leftarrow> dict_store h a name (round2 (fsub amt equal_share));
          fill_store h' a equal_share rest }"

text \<open>
  \<^verbatim>\<open>compute_balances\<close>: \<^verbatim>\<open>balances = {}\<close> makes a new dict, the loop fills it, and its
  address is returned with the total and the share.
\<close>

definition compute_balances_store ::
  "store \<Rightarrow> string list \<Rightarrow> pyfloat list \<Rightarrow> (store \<times> pyfloat \<times> pyfloat \<times> addr) option" where
  "compute_balances_store h names amounts =
     (let total_expense = py_sum amounts;
          n = length names;
          equal_share = (if n > 0 then fdiv_nat total_expense n else Fin 0);
          (h1, balances) = new h (DictObj [])
      in do { h2 \<leftarrow> fill_store h1 balances equal_share (zip names amounts);
              Some (h2, total_expense, equal_share, balances) })"

text \<open>
  The first loop of \<^verbatim>\<open>settle_debts\<close> over the items of the dict: each
  \<^verbatim>\<open>[name, bal]\<close> is a new object, whose reference is appended to the list at
  \<open>creditors\<close> or at \<open>debtors\<close>.
\<close>

fun partition_store :: "store \<Rightarrow> addr \<Rightarrow> addr \<Rightarrow> pydict \<Rightarrow> store option" where
  "partition_store h creditors debtors [] = Some h"
| "partition_store h creditors debtors ((name, bal) # rest) =
     (if flt (Fin (1 / 100)) bal then
        (case new h (CellObj name bal) of (h1, r) \<Rightarrow>
           do { h2 \<leftarrow> list_append h1 creditors r; partition_store h2 creditors debtors rest })
      else if flt bal (Fin (- (1 / 100))) then
        (case new h (CellObj name (fneg bal)) of (h1, r) \<Rightarrow>
           do { h2 \<leftarrow> list_append h1 debtors r; partition_store h2 creditors debtors rest })
      else partition_store h creditors debtors rest)"

text \<open>
  \<^verbatim>\<open>xs.sort(key=lambda x: x[1], reverse=True)\<close> on the list object at \<open>l\<close>: the
  references are put in the order of the amounts they refer to.
\<close>

fun get_cells :: "store \<Rightarrow> addr list \<Rightarrow> (string \<times> pyfloat) list option" where
  "get_cells h [] = Some []"
| "get_cells h (r # rs) = do { c \<leftarrow> get_cell h r; cs \<leftarrow> get_cells h rs; Some (c # cs) }"

definition sort_store :: "store \<Rightarrow> addr \<Rightarrow> store option" where
  "sort_store h l =
     do { rs \<leftarrow> get_list h l;
          cells \<leftarrow> get_cells h rs;
          Some (h[l := ListObj (map fst (sort_desc (zip rs (map snd cells))))]) }"

text \<open>The two-pointer loop, reading and writing the objects behind the two lists.\<close>

partial_function (option) sweep_store ::
  "store \<Rightarrow> addr \<Rightarrow> addr \<Rightarrow> nat \<Rightarrow> nat \<Rightarrow> transaction list \<Rightarrow>
   (store \<times> transaction list) option" where
  "sweep_store h debtors creditors i j transactions =
     do { drefs \<leftarrow> get_list h debtors;
          crefs \<leftarrow> get_list h creditors;
          if i < length drefs \<and> j < length crefs then
            do { (debtor_name, debtor_owes) \<leftarrow> get_cell h (drefs ! i);
                 (creditor_name, creditor_receives) \<leftarrow> get_cell h (crefs ! j);
                 let amount = round2 (py_min debtor_owes creditor_receives);
                     transactions' = (if flt (Fin 0) amount
                                      then transactions @ [(debtor_name, creditor_name, amount)]
                                      else transactions);
                     debtor_owes' = round2 (fsub debtor_owes amount);
                     creditor_receives' = round2 (fsub creditor_receives amount)
                 in do { h1 \<leftarrow> set_amount h (drefs ! i) debtor_owes';
                         h2 \<leftarrow> set_amount h1 (crefs ! j) creditor_receives';
                         sweep_store h2 debtors creditors
                           (if flt debtor_owes' (Fin (1 / 100)) then i + 1 else i)
                           (if flt creditor_receives' (Fin (1 / 100)) then j + 1 else j)
                           transactions' } }
          else Some (h, transactions) }"

declare sweep_store.simps [code]

text \<open>\<^verbatim>\<open>settle_debts\<close> on the dict at address \<open>balances\<close>.\<close>

definition settle_debts_store :: "store \<Rightarrow> addr \<Rightarrow> (store \<times> transaction list) option" where
  "settle_debts_store h balances =
     do { d \<leftarrow> get_dict h balances;
          (case new h (ListObj []) of (h1, creditors) \<Rightarrow>
           case new h1 (ListObj []) of (h2, debtors) \<Rightarrow>
             do { h3 \<leftarrow> partition_store h2 creditors debtors d;
                  h4 \<leftarrow> sort_store h3 creditors;
                  h5 \<leftarrow> sort_store h4 debtors;
                  sweep_store h5 debtors creditors 0 0 [] }) }"

text \<open>
  How a state of the loop on the store stands for a state of the loop on values: the two
  list objects hold the references \<open>drefs\<close> and \<open>crefs\<close>, which point to the entries
  \<open>ds\<close> and \<open>cs\<close>, and no object is referred to twice.
\<close>

definition sweep_rel ::
  "store \<Rightarrow> addr \<Rightarrow> addr \<Rightarrow> addr list \<Rightarrow> addr list \<Rightarrow> entry list \<Rightarrow> entry list \<Rightarrow> bool" where
  "sweep_rel h debtors creditors drefs crefs ds cs \<longleftrightarrow>
     get_list h debtors = Some drefs \<and> get_list h creditors = Some crefs
   \<and> get_cells h drefs = Some ds \<and> get_cells h crefs = Some cs
   \<and> distinct (drefs @ crefs)"

section \<open>Concrete scenario\<close>

text \<open>
  C9. For names A, B, C, D and amounts 100, 0, 0, 0 the share is 25, the balances are
  A: 75, B: -25, C: -25, D: -25, and the settlement is B pays A 25, C pays A 25, D pays A 25,
  in this order: the three debtors tie, and the stable sort keeps them in insertion order.
\<close>

theorem scenario_four_people:
  "compute_balances [''A'', ''B'', ''C'', ''D''] [Fin 100, Fin 0, Fin 0, Fin 0] =
     (Fin 100, Fin 25, [(''A'', Fin 75), (''B'', Fin (- 25)), (''C'', Fin (- 25)), (''D'', Fin (- 25))])
   \<and> settle_debts [(''A'', Fin 75), (''B'', Fin (- 25)), (''C'', Fin (- 25)), (''D'', Fin (- 25))] =
     Some [(''B'', ''A'', Fin 25), (''C'', ''A'', Fin 25), (''D'', ''A'', Fin 25)]"
  by code_simp

section \<open>The balance calculator: properties\<close>


















section \<open>Rounding\<close>


text \<open>What is left of a number after taking its rounded value away rounds to zero.\<close>

lemma round_half_even_residual: "round_half_even (y - of_int (round_half_even y)) = 0"
proof -
  define f where "f = \<lfloor>y\<rfloor>"
  define r where "r = y - of_int f"
  have r: "0 \<le> r" "r < 1" by (simp_all add: r_def f_def) linarith+
  have y: "y = of_int f + r" by (simp add: r_def)
  have fl: "\<lfloor>of_int f + r\<rfloor> = f" using r by (simp add: floor_unique)
  consider "r < 1 / 2" | "1 / 2 < r" | "r = 1 / 2" by linarith
  then show ?thesis
  proof cases
    case 1
    then have "round_half_even y = f"
      unfolding y round_half_even_def fl by (simp add: Let_def)
    moreover have "\<lfloor>r\<rfloor> = 0" using r by (simp add: floor_unique)
    ultimately show ?thesis using 1 by (simp add: y round_half_even_def Let_def)
  next
    case 2
    then have "round_half_even y = f + 1"
      unfolding y round_half_even_def fl by (simp add: Let_def)
    moreover have "\<lfloor>r - 1\<rfloor> = - 1" using r 2 by (intro floor_unique) simp_all
    ultimately show ?thesis using 2 by (simp add: y round_half_even_def Let_def)
  next
    case 3
    show ?thesis
    proof (cases "even f")
      case True
      then have "round_half_even y = f"
        unfolding y round_half_even_def fl using 3 by (simp add: Let_def)
      then show ?thesis using 3 by (simp add: y round_half_even_def Let_def)
    next
      case False
      then have "round_half_even y = f + 1"
        unfolding y round_half_even_def fl using 3 by (simp add: Let_def)
      moreover have "\<lfloor>- (1 / 2 :: rat)\<rfloor> = - 1" by (intro floor_unique) simp_all
      ultimately show ?thesis using 3 by (simp add: y round_half_even_def Let_def)
    qed
  qed
qed

lemma round2_residual: "round2 (fsub (Fin x) (round2 (Fin x))) = Fin 0"
proof -
  have "(x - of_int (round_half_even (x * 100)) / 100) * 100 =
      x * 100 - of_int (round_half_even (x * 100))"
    by (simp add: algebra_simps)
  then show ?thesis
    by (simp add: fsub_def round_half_even_residual)
qed

section \<open>The partition and the sort\<close>

lemma flt_exclusive: "flt bal (Fin (- (1 / 100))) \<Longrightarrow> \<not> flt (Fin (1 / 100)) bal"
  by (cases bal) auto

lemma partition_balances_eq:
  "partition_balances creditors debtors balances =
     (creditors @ filter (\<lambda>(name, bal). flt (Fin (1 / 100)) bal) balances,
      debtors @ map (\<lambda>(name, bal). (name, fneg bal))
                  (filter (\<lambda>(name, bal). flt bal (Fin (- (1 / 100)))) balances))"
  by (induction creditors debtors balances rule: partition_balances.induct)
     (auto dest: flt_exclusive)

lemma set_insert_desc: "set (insert_desc x ys) = insert x (set ys)"
  by (induction ys) auto

lemma length_insert_desc: "length (insert_desc x ys) = Suc (length ys)"
  by (induction ys) auto

lemma set_sort_desc: "set (sort_desc xs) = set xs"
  by (induction xs) (auto simp: sort_desc_def set_insert_desc)

lemma length_sort_desc: "length (sort_desc xs) = length xs"
  by (induction xs) (auto simp: sort_desc_def length_insert_desc)

lemma sort_desc_Cons: "sort_desc (x # xs) = insert_desc x (sort_desc xs)"
  by (simp add: sort_desc_def)






section \<open>One pass through the loop body\<close>

lemma sweep_step_eq:
  assumes "debtors ! i = (debtor_name, debtor_owes)"
    and "creditors ! j = (creditor_name, creditor_receives)"
  shows "sweep_step debtors creditors i j transactions =
     (debtors[i := (debtor_name, round2 (fsub debtor_owes (round2 (py_min debtor_owes creditor_receives))))],
      creditors[j := (creditor_name, round2 (fsub creditor_receives (round2 (py_min debtor_owes creditor_receives))))],
      (if flt (round2 (fsub debtor_owes (round2 (py_min debtor_owes creditor_receives)))) (Fin (1 / 100))
       then i + 1 else i),
      (if flt (round2 (fsub creditor_receives (round2 (py_min debtor_owes creditor_receives)))) (Fin (1 / 100))
       then j + 1 else j),
      (if flt (Fin 0) (round2 (py_min debtor_owes creditor_receives))
       then transactions @ [(debtor_name, creditor_name, round2 (py_min debtor_owes creditor_receives))]
       else transactions))"
  using assms by (simp add: sweep_step_def Let_def)

text \<open>
  When the two current amounts are not both infinite, one of them is brought to zero:
  the loop advances.
\<close>

lemma step_progress:
  assumes "fin_or_pinf d" and "fin_or_pinf c" and "is_finite d \<or> is_finite c"
  shows "flt (round2 (fsub d (round2 (py_min d c)))) (Fin (1 / 100))
       \<or> flt (round2 (fsub c (round2 (py_min d c)))) (Fin (1 / 100))"
proof (cases d)
  case (Fin x)
  show ?thesis
  proof (cases c)
    case (Fin y)
    show ?thesis
    proof (cases "y < x")
      case True
      then have "py_min d c = c" using \<open>d = Fin x\<close> Fin by (simp add: py_min_def)
      then have "round2 (fsub c (round2 (py_min d c))) = Fin 0"
        using Fin round2_residual by simp
      then show ?thesis by simp
    next
      case False
      then have "py_min d c = d" using \<open>d = Fin x\<close> Fin by (simp add: py_min_def)
      then have "round2 (fsub d (round2 (py_min d c))) = Fin 0"
        using \<open>d = Fin x\<close> round2_residual by simp
      then show ?thesis by simp
    qed
  next
    case PInf
    then have "py_min d c = d" using Fin by (simp add: py_min_def)
    then have "round2 (fsub d (round2 (py_min d c))) = Fin 0"
      using Fin round2_residual by simp
    then show ?thesis by simp
  qed (use assms in \<open>simp_all add: fin_or_pinf_def\<close>)
next
  case PInf
  with assms obtain y where c: "c = Fin y" by (cases c) auto
  then have "py_min d c = c" using PInf by (simp add: py_min_def)
  then have "round2 (fsub c (round2 (py_min d c))) = Fin 0"
    using c round2_residual by simp
  then show ?thesis by simp
qed (use assms in \<open>simp_all add: fin_or_pinf_def\<close>)

lemma step_keeps_kind:
  assumes "fin_or_pinf d" and "fin_or_pinf c" and "is_finite d \<or> is_finite c"
  shows "fin_or_pinf (round2 (fsub d (round2 (py_min d c))))"
    and "fin_or_pinf (round2 (fsub c (round2 (py_min d c))))"
    and "is_finite d \<Longrightarrow> is_finite (round2 (fsub d (round2 (py_min d c))))"
    and "is_finite c \<Longrightarrow> is_finite (round2 (fsub c (round2 (py_min d c))))"
  using assms by (cases d; cases c; simp add: fin_or_pinf_def py_min_def fsub_def)+

section \<open>The two-pointer loop\<close>



text \<open>
  When the amounts of one of the two lists are all finite, the loop ends, after at most
  one pass less than the number of entries still to settle.
\<close>

lemma sweep_returns:
  assumes "\<forall>e \<in> set debtors \<union> set creditors. fin_or_pinf (snd e)"
    and "all_finite debtors \<or> all_finite creditors"
  shows "\<exists>r. sweep debtors creditors i j transactions = Some r
     \<and> length r \<le> length transactions +
         (if i < length debtors \<and> j < length creditors
          then (length debtors - i) + (length creditors - j) - 1 else 0)"
  using assms
proof (induction "(length debtors - i) + (length creditors - j)"
    arbitrary: debtors creditors i j transactions rule: less_induct)
  case less
  show ?case
  proof (cases "i < length debtors \<and> j < length creditors")
    case False
    then have "sweep debtors creditors i j transactions = Some transactions"
      by (subst sweep.simps) auto
    with False show ?thesis by simp
  next
    case True
    obtain dn d cn c where d: "debtors ! i = (dn, d)" and c: "creditors ! j = (cn, c)"
      by (metis prod.collapse)
    let ?amount = "round2 (py_min d c)"
    let ?d' = "round2 (fsub d ?amount)"
    let ?c' = "round2 (fsub c ?amount)"
    let ?ds = "debtors[i := (dn, ?d')]"
    let ?cs = "creditors[j := (cn, ?c')]"
    let ?i = "if flt ?d' (Fin (1 / 100)) then i + 1 else i"
    let ?j = "if flt ?c' (Fin (1 / 100)) then j + 1 else j"
    let ?ts = "if flt (Fin 0) ?amount then transactions @ [(dn, cn, ?amount)] else transactions"
    have din: "(dn, d) \<in> set debtors" and cin: "(cn, c) \<in> set creditors"
      using True d c by (metis nth_mem)+
    have kd: "fin_or_pinf d" and kc: "fin_or_pinf c"
      using less.prems(1) din cin by force+
    have fin: "is_finite d \<or> is_finite c"
      using less.prems(2) din cin by (force simp: all_finite_def)
    note keep = step_keeps_kind [OF kd kc fin]
    have kinds: "\<forall>e \<in> set ?ds \<union> set ?cs. fin_or_pinf (snd e)"
    proof
      fix e assume "e \<in> set ?ds \<union> set ?cs"
      then have "e \<in> insert (dn, ?d') (set debtors) \<union> insert (cn, ?c') (set creditors)"
        using set_update_subset_insert by fast
      with keep(1,2) less.prems(1) show "fin_or_pinf (snd e)" by auto
    qed
    have fins: "all_finite ?ds \<or> all_finite ?cs"
    proof -
      have "all_finite ?ds" if a: "all_finite debtors"
        unfolding all_finite_def
      proof
        fix e assume "e \<in> set ?ds"
        then have "e \<in> insert (dn, ?d') (set debtors)"
          using set_update_subset_insert by fast
        moreover have "is_finite d" using a din by (force simp: all_finite_def)
        ultimately show "is_finite (snd e)" using keep(3) a by (auto simp: all_finite_def)
      qed
      moreover have "all_finite ?cs" if a: "all_finite creditors"
        unfolding all_finite_def
      proof
        fix e assume "e \<in> set ?cs"
        then have "e \<in> insert (cn, ?c') (set creditors)"
          using set_update_subset_insert by fast
        moreover have "is_finite c" using a cin by (force simp: all_finite_def)
        ultimately show "is_finite (snd e)" using keep(4) a by (auto simp: all_finite_def)
      qed
      ultimately show ?thesis using less.prems(2) by blast
    qed
    have adv: "flt ?d' (Fin (1 / 100)) \<or> flt ?c' (Fin (1 / 100))"
      by (rule step_progress [OF kd kc fin])
    have smaller: "(length ?ds - ?i) + (length ?cs - ?j)
        < (length debtors - i) + (length creditors - j)"
      using True adv by auto
    from less.hyps [OF smaller kinds fins, of ?ts]
    obtain r where r: "sweep ?ds ?cs ?i ?j ?ts = Some r"
      and len: "length r \<le> length ?ts +
         (if ?i < length ?ds \<and> ?j < length ?cs
          then (length ?ds - ?i) + (length ?cs - ?j) - 1 else 0)"
      by blast
    have "sweep debtors creditors i j transactions = Some r"
      using True r by (subst sweep.simps) (simp add: sweep_step_eq [OF d c])
    moreover have "length r \<le> length transactions +
        ((length debtors - i) + (length creditors - j) - 1)"
      using len True adv by (auto split: if_splits)
    ultimately show ?thesis using True by simp
  qed
qed

section \<open>The settlement engine: results\<close>

lemma settle_debts_sweep:
  "settle_debts balances =
     sweep (sort_desc (debtors_of balances)) (sort_desc (creditors_of balances)) 0 0 []"
  by (simp add: settle_debts_def partition_balances_eq debtors_of_def creditors_of_def)

lemma length_creditors_of: "length (creditors_of balances) = creditor_count balances"
  by (simp add: creditors_of_def creditor_count_def)

lemma length_debtors_of: "length (debtors_of balances) = debtor_count balances"
  by (simp add: debtors_of_def debtor_count_def)

lemma creditors_of_kind: "e \<in> set (creditors_of balances) \<Longrightarrow> fin_or_pinf (snd e)"
  by (cases e; cases "snd e") (auto simp: creditors_of_def fin_or_pinf_def)

lemma debtors_of_kind: "e \<in> set (debtors_of balances) \<Longrightarrow> fin_or_pinf (snd e)"
proof -
  assume "e \<in> set (debtors_of balances)"
  then obtain name bal where "e = (name, fneg bal)" "flt bal (Fin (- (1 / 100)))"
    by (auto simp: debtors_of_def)
  then show ?thesis by (cases bal) (auto simp: fin_or_pinf_def)
qed

lemma creditors_of_finite: "PInf \<notin> snd ` set balances \<Longrightarrow> all_finite (creditors_of balances)"
proof (unfold all_finite_def, rule ballI)
  fix e assume "PInf \<notin> snd ` set balances" and e: "e \<in> set (creditors_of balances)"
  then have "snd e \<noteq> PInf" by (force simp: creditors_of_def)
  with creditors_of_kind [OF e] show "is_finite (snd e)"
    by (cases "snd e") (auto simp: fin_or_pinf_def)
qed

lemma debtors_of_finite: "NInf \<notin> snd ` set balances \<Longrightarrow> all_finite (debtors_of balances)"
proof (unfold all_finite_def, rule ballI)
  fix e assume no: "NInf \<notin> snd ` set balances" and e: "e \<in> set (debtors_of balances)"
  then obtain name bal where b: "e = (name, fneg bal)" "(name, bal) \<in> set balances"
    by (auto simp: debtors_of_def)
  with no have "bal \<noteq> NInf" by force
  with debtors_of_kind [OF e] b show "is_finite (snd e)"
    by (cases bal) (auto simp: fin_or_pinf_def)
qed




text \<open>On every other mapping the loop ends, within the bound on its passes.\<close>

lemma settle_debts_returns:
  assumes "PInf \<notin> snd ` set balances \<or> NInf \<notin> snd ` set balances"
  shows "\<exists>ts. settle_debts balances = Some ts
     \<and> length ts \<le> (if debtor_count balances \<noteq> 0 \<and> creditor_count balances \<noteq> 0
                     then debtor_count balances + creditor_count balances - 1 else 0)"
proof -
  let ?ds = "sort_desc (debtors_of balances)" and ?cs = "sort_desc (creditors_of balances)"
  have kinds: "\<forall>e \<in> set ?ds \<union> set ?cs. fin_or_pinf (snd e)"
    using debtors_of_kind creditors_of_kind by (auto simp: set_sort_desc)
  have fins: "all_finite ?ds \<or> all_finite ?cs"
    using assms debtors_of_finite creditors_of_finite
    by (auto simp: all_finite_def set_sort_desc)
  from sweep_returns [OF kinds fins, of 0 0 "[]"]
  obtain r where r: "sweep ?ds ?cs 0 0 [] = Some r"
    and len: "length r \<le> length ([] :: transaction list) +
        (if 0 < length ?ds \<and> 0 < length ?cs
         then (length ?ds - 0) + (length ?cs - 0) - 1 else 0)"
    by blast
  have "length ?ds = debtor_count balances" "length ?cs = creditor_count balances"
    by (simp_all add: length_sort_desc length_debtors_of length_creditors_of)
  with len have "length r \<le> (if debtor_count balances \<noteq> 0 \<and> creditor_count balances \<noteq> 0
      then debtor_count balances + creditor_count balances - 1 else 0)"
    by (auto split: if_splits)
  with r show ?thesis
    unfolding settle_debts_sweep by blast
qed




text \<open>
  Whatever the loop returns was either there before or is a positive amount paid by a
  name of the debtor list to a name of the creditor list.
\<close>

lemma sweep_transactions:
  assumes "sweep debtors creditors i j transactions = Some r"
  shows "\<forall>t \<in> set r. t \<in> set transactions
     \<or> (flt (Fin 0) (snd (snd t)) \<and> fst t \<in> fst ` set debtors
          \<and> fst (snd t) \<in> fst ` set creditors)"
  using assms
proof (induction debtors creditors i j transactions r
    rule: sweep.raw_induct [rotated 1, consumes 1])
  case (1 sweep' debtors creditors i j transactions r)
  show ?case
  proof (cases "i < length debtors \<and> j < length creditors")
    case False
    with 1(2) show ?thesis by auto
  next
    case True
    obtain dn d cn c where d: "debtors ! i = (dn, d)" and c: "creditors ! j = (cn, c)"
      by (metis prod.collapse)
    let ?amount = "round2 (py_min d c)"
    let ?ds = "debtors[i := (dn, round2 (fsub d ?amount))]"
    let ?cs = "creditors[j := (cn, round2 (fsub c ?amount))]"
    let ?ts = "if flt (Fin 0) ?amount then transactions @ [(dn, cn, ?amount)] else transactions"
    from 1(2) True obtain i' j' where "sweep' ?ds ?cs i' j' ?ts = Some r"
      by (simp add: sweep_step_eq [OF d c])
    from 1(1) [OF this]
    have ih: "\<forall>t \<in> set r. t \<in> set ?ts
       \<or> (flt (Fin 0) (snd (snd t)) \<and> fst t \<in> fst ` set ?ds \<and> fst (snd t) \<in> fst ` set ?cs)" .
    have dn: "dn \<in> fst ` set debtors" and cn: "cn \<in> fst ` set creditors"
      using True d c by (metis fst_conv image_eqI nth_mem)+
    have "map fst ?ds = map fst debtors" "map fst ?cs = map fst creditors"
      using d c by (simp_all add: map_update list_update_same_conv True)
    then have names: "fst ` set ?ds = fst ` set debtors" "fst ` set ?cs = fst ` set creditors"
      by (metis list.set_map)+
    show ?thesis
    proof
      fix t assume "t \<in> set r"
      with ih have "t \<in> set ?ts
         \<or> (flt (Fin 0) (snd (snd t)) \<and> fst t \<in> fst ` set ?ds \<and> fst (snd t) \<in> fst ` set ?cs)"
        by blast
      then show "t \<in> set transactions
         \<or> (flt (Fin 0) (snd (snd t)) \<and> fst t \<in> fst ` set debtors
              \<and> fst (snd t) \<in> fst ` set creditors)"
        unfolding names using dn cn by (auto split: if_splits) force+
    qed
  qed
qed

lemma same_key_same_value:
  "distinct (map fst d) \<Longrightarrow> (k, v) \<in> set d \<Longrightarrow> (k, v') \<in> set d \<Longrightarrow> v = v'"
  by (metis map_of_is_SomeI option.inject)

text \<open>In a dict no name is both a creditor and a debtor.\<close>

lemma roles_disjoint:
  assumes "distinct (map fst balances)"
  shows "fst ` set (creditors_of balances) \<inter> fst ` set (debtors_of balances) = {}"
proof (rule ccontr)
  assume "fst ` set (creditors_of balances) \<inter> fst ` set (debtors_of balances) \<noteq> {}"
  then obtain name v w where "(name, v) \<in> set balances" "flt (Fin (1 / 100)) v"
    "(name, w) \<in> set balances" "flt w (Fin (- (1 / 100)))"
    by (auto simp: creditors_of_def debtors_of_def)
  with same_key_same_value [OF assms] flt_exclusive show False
    by blast
qed

text \<open>
  C3. For every balance mapping (a dict: distinct keys), every transaction of the list
  that \<^verbatim>\<open>settle_debts\<close> returns has an amount greater than 0 and a payer different from
  its receiver; and a list is returned unless the mapping holds both infinities.
\<close>

theorem settle_debts_positive:
  assumes "distinct (map fst balances)"
  shows "(\<forall>ts. settle_debts balances = Some ts \<longrightarrow>
            (\<forall>(payer, receiver, amount) \<in> set ts. flt (Fin 0) amount \<and> payer \<noteq> receiver))
    \<and> (PInf \<notin> snd ` set balances \<or> NInf \<notin> snd ` set balances \<longrightarrow>
          (\<exists>ts. settle_debts balances = Some ts))"
proof (intro conjI allI impI)
  fix ts assume "settle_debts balances = Some ts"
  then have "sweep (sort_desc (debtors_of balances)) (sort_desc (creditors_of balances)) 0 0 [] = Some ts"
    by (simp add: settle_debts_sweep)
  from sweep_transactions [OF this]
  have *: "\<forall>t \<in> set ts. flt (Fin 0) (snd (snd t)) \<and> fst t \<in> fst ` set (debtors_of balances)
       \<and> fst (snd t) \<in> fst ` set (creditors_of balances)"
    by (simp add: set_sort_desc)
  show "\<forall>(payer, receiver, amount) \<in> set ts. flt (Fin 0) amount \<and> payer \<noteq> receiver"
  proof (clarify, rule conjI)
    fix payer receiver amount assume t: "(payer, receiver, amount) \<in> set ts"
    with * show "flt (Fin 0) amount" by force
    from t * have "payer \<in> fst ` set (debtors_of balances)"
      "receiver \<in> fst ` set (creditors_of balances)" by force+
    with roles_disjoint [OF assms] show "payer \<noteq> receiver" by blast
  qed
next
  assume "PInf \<notin> snd ` set balances \<or> NInf \<notin> snd ` set balances"
  from settle_debts_returns [OF this] show "\<exists>ts. settle_debts balances = Some ts"
    by blast
qed

theorem settle_debts_positive_witness:
  "distinct (map fst [(''A'', Fin 30), (''B'', Fin (- 30)), (''C'', Fin 0)])
   \<and> settle_debts [(''A'', Fin 30), (''B'', Fin (- 30)), (''C'', Fin 0)] = Some [(''B'', ''A'', Fin 30)]
   \<and> flt (Fin 0) (Fin 30) \<and> ''B'' \<noteq> ''A''"
proof -
  have dist: "distinct (map fst [(''A'', Fin 30), (''B'', Fin (- 30)), (''C'', Fin 0)])"
    by simp
  have res: "settle_debts [(''A'', Fin 30), (''B'', Fin (- 30)), (''C'', Fin 0)] =
      Some [(''B'', ''A'', Fin 30)]"
    by code_simp
  from settle_debts_positive [OF dist] res
  have "\<forall>(payer, receiver, amount) \<in> set [(''B'', ''A'', Fin 30)].
      flt (Fin 0) amount \<and> payer \<noteq> receiver"
    by blast
  then have "flt (Fin 0) (Fin 30) \<and> ''B'' \<noteq> ''A''"
    by simp
  with dist res show ?thesis by blast
qed




section \<open>The zero-sum invariant\<close>









section \<open>Settlement in whole cents\<close>














section \<open>Applying transactions\<close>










section \<open>The loop settles balanced debts\<close>




section \<open>Settlement correctness\<close>








lemma map_fst_insert_desc: "set (map fst (insert_desc x ys)) = insert (fst x) (set (map fst ys))"
  by (induction ys) auto

lemma distinct_insert_desc:
  "distinct (map fst (insert_desc x ys)) \<longleftrightarrow> fst x \<notin> fst ` set ys \<and> distinct (map fst ys)"
  by (induction ys) (auto simp: set_insert_desc)

lemma distinct_sort_desc: "distinct (map fst xs) \<Longrightarrow> distinct (map fst (sort_desc xs))"
proof (induction xs)
  case Nil
  show ?case by (simp add: sort_desc_def)
next
  case (Cons x xs)
  then show ?case
    unfolding sort_desc_Cons distinct_insert_desc by (simp add: set_sort_desc)
qed











section \<open>The store: reading after writing\<close>

lemma get_cell_Some: "get_cell h a = Some (name, v) \<longleftrightarrow> a < length h \<and> h ! a = CellObj name v"
  by (auto simp: get_cell_def split: obj.splits)

lemma get_list_Some: "get_list h a = Some rs \<longleftrightarrow> a < length h \<and> h ! a = ListObj rs"
  by (auto simp: get_list_def split: obj.splits)

lemma get_dict_Some: "get_dict h a = Some d \<longleftrightarrow> a < length h \<and> h ! a = DictObj d"
  by (auto simp: get_dict_def split: obj.splits)

lemma get_cells_Some:
  "get_cells h rs = Some es \<longleftrightarrow>
     length es = length rs \<and> (\<forall>k < length rs. get_cell h (rs ! k) = Some (es ! k))"
proof (induction rs arbitrary: es)
  case Nil
  show ?case by auto
next
  case (Cons r rs)
  show ?case
  proof (cases es)
    case Nil
    then show ?thesis by (auto split: bind_splits)
  next
    case (Cons e es')
    show ?thesis
      unfolding Cons using Cons.IH [of es']
      by (auto simp: nth_Cons split: bind_splits nat.splits)
  qed
qed

lemma get_cells_same:
  assumes "\<forall>r \<in> set rs. r < length h \<longrightarrow> h' ! r = h ! r" and "length h \<le> length h'"
    and "get_cells h rs = Some es"
  shows "get_cells h' rs = Some es"
proof -
  have "get_cell h' (rs ! k) = Some (es ! k)" if "k < length rs" for k
  proof -
    from assms(3) that have "get_cell h (rs ! k) = Some (es ! k)"
      by (simp add: get_cells_Some)
    then have "rs ! k < length h" "h ! (rs ! k) = CellObj (fst (es ! k)) (snd (es ! k))"
      by (metis get_cell_Some prod.collapse)+
    with assms(1,2) that show ?thesis
      by (metis get_cell_Some nth_mem order_less_le_trans prod.collapse)
  qed
  with assms(3) show ?thesis by (simp add: get_cells_Some)
qed

lemma get_cells_append:
  "get_cells h rs = Some es \<Longrightarrow> get_cells h rs' = Some es' \<Longrightarrow>
   get_cells h (rs @ rs') = Some (es @ es')"
  by (induction rs arbitrary: es) (auto split: bind_splits)

section \<open>The balance calculator on the store\<close>

lemma fill_store_eq:
  "a < length h \<Longrightarrow> h ! a = DictObj d \<Longrightarrow>
   fill_store h a s zs = Some (h[a := DictObj (fill_balances d s zs)])"
proof (induction d s zs arbitrary: h rule: fill_balances.induct)
  case (1 balances equal_share)
  then show ?case by (metis fill_balances.simps(1) fill_store.simps(1) list_update_id)
next
  case (2 balances equal_share name amt rest)
  let ?h = "h[a := DictObj (setitem balances name (round2 (fsub amt equal_share)))]"
  have "dict_store h a name (round2 (fsub amt equal_share)) = Some ?h"
    using 2(2,3) by (simp add: dict_store_def get_dict_def)
  moreover have "fill_store ?h a equal_share rest =
      Some (?h[a := DictObj (fill_balances (setitem balances name (round2 (fsub amt equal_share)))
        equal_share rest)])"
    using 2(2) by (intro 2(1)) simp_all
  ultimately show ?case by simp
qed

text \<open>The call adds one object, the dict that the pure function computes.\<close>

lemma compute_balances_store_eq:
  "compute_balances_store h names amounts =
     (case compute_balances names amounts of
        (total_expense, equal_share, balances) \<Rightarrow>
          Some (h @ [DictObj balances], total_expense, equal_share, length h))"
proof -
  have "fill_store (h @ [DictObj []]) (length h) s zs =
      Some (h @ [DictObj (fill_balances [] s zs)])" for s zs
    using fill_store_eq [of "length h" "h @ [DictObj []]" "[]" s zs] by simp
  then show ?thesis
    by (simp add: compute_balances_store_def compute_balances_def Let_def new_def)
qed

section \<open>The settlement engine on the store\<close>

lemma creditors_of_Cons:
  "creditors_of ((name, bal) # rest) =
     (if flt (Fin (1 / 100)) bal then (name, bal) # creditors_of rest else creditors_of rest)"
  by (simp add: creditors_of_def)

lemma debtors_of_Cons:
  "debtors_of ((name, bal) # rest) =
     (if flt bal (Fin (- (1 / 100))) then (name, fneg bal) # debtors_of rest else debtors_of rest)"
  by (simp add: debtors_of_def)

text \<open>
  The first loop only adds objects and appends to the two lists: what was in the store
  stays, and the new references are distinct and point to the creditor and debtor entries.
\<close>

lemma partition_store_spec:
  assumes "cl < length h" and "dl < length h" and "cl \<noteq> dl"
    and "h ! cl = ListObj crefs" and "h ! dl = ListObj drefs"
  shows "\<exists>h' cr dr. partition_store h cl dl b = Some h'
     \<and> length h \<le> length h'
     \<and> (\<forall>a < length h. a \<noteq> cl \<longrightarrow> a \<noteq> dl \<longrightarrow> h' ! a = h ! a)
     \<and> h' ! cl = ListObj (crefs @ cr) \<and> h' ! dl = ListObj (drefs @ dr)
     \<and> get_cells h' cr = Some (creditors_of b) \<and> get_cells h' dr = Some (debtors_of b)
     \<and> distinct (cr @ dr) \<and> (\<forall>r \<in> set (cr @ dr). length h \<le> r \<and> r < length h')"
  using assms
proof (induction b arbitrary: h crefs drefs)
  case Nil
  then show ?case
    by (intro exI [of _ h] exI [of _ "[]"]) (simp add: creditors_of_def debtors_of_def)
next
  case (Cons item rest)
  obtain name bal where item: "item = (name, bal)" by (cases item)
  consider (creditor) "flt (Fin (1 / 100)) bal"
    | (debtor) "\<not> flt (Fin (1 / 100)) bal" "flt bal (Fin (- (1 / 100)))"
    | (neither) "\<not> flt (Fin (1 / 100)) bal" "\<not> flt bal (Fin (- (1 / 100)))"
    by blast
  then show ?case
  proof cases
    case creditor
    let ?r = "length h"
    let ?h1 = "h @ [CellObj name bal]"
    let ?h2 = "?h1[cl := ListObj (crefs @ [?r])]"
    have app: "list_append ?h1 cl ?r = Some ?h2"
      using Cons.prems by (simp add: list_append_def get_list_def nth_append)
    have pre: "cl < length ?h2" "dl < length ?h2" "?h2 ! cl = ListObj (crefs @ [?r])"
      "?h2 ! dl = ListObj drefs"
      using Cons.prems by (simp_all add: nth_append)
    from Cons.IH [OF pre(1,2) Cons.prems(3) pre(3,4)]
    obtain h' cr dr where ih: "partition_store ?h2 cl dl rest = Some h'"
      "length ?h2 \<le> length h'"
      "\<forall>a < length ?h2. a \<noteq> cl \<longrightarrow> a \<noteq> dl \<longrightarrow> h' ! a = ?h2 ! a"
      "h' ! cl = ListObj ((crefs @ [?r]) @ cr)" "h' ! dl = ListObj (drefs @ dr)"
      "get_cells h' cr = Some (creditors_of rest)" "get_cells h' dr = Some (debtors_of rest)"
      "distinct (cr @ dr)" "\<forall>r \<in> set (cr @ dr). length ?h2 \<le> r \<and> r < length h'"
      by blast
    have run: "partition_store h cl dl (item # rest) = Some h'"
      using creditor app ih(1) by (simp add: item new_def)
    have frame: "\<forall>a < length h. a \<noteq> cl \<longrightarrow> a \<noteq> dl \<longrightarrow> h' ! a = h ! a"
      using ih(3) by (simp add: nth_append)
    have "h' ! ?r = CellObj name bal"
      using ih(3) Cons.prems(1,2) by (simp add: nth_append)
    then have cell: "get_cell h' ?r = Some (name, bal)"
      using ih(2) by (simp add: get_cell_Some)
    have cells: "get_cells h' (?r # cr) = Some (creditors_of (item # rest))"
      using cell ih(6) creditor by (simp add: item creditors_of_Cons)
    have debts: "get_cells h' dr = Some (debtors_of (item # rest))"
      using ih(7) creditor flt_exclusive by (auto simp: item debtors_of_Cons)
    have len': "Suc (length h) \<le> length h'"
      using ih(2) by simp
    have rng: "Suc (length h) \<le> r \<and> r < length h'" if "r \<in> set cr \<or> r \<in> set dr" for r
      using ih(9) that by auto
    then have "?r \<notin> set cr" "?r \<notin> set dr"
      by fastforce+
    then have dist: "distinct ((?r # cr) @ dr)"
      using ih(8) by simp
    have range: "\<forall>r \<in> set ((?r # cr) @ dr). length h \<le> r \<and> r < length h'"
    proof
      fix r assume "r \<in> set ((?r # cr) @ dr)"
      then consider "r = ?r" | "r \<in> set cr \<or> r \<in> set dr" by auto
      then show "length h \<le> r \<and> r < length h'"
      proof cases
        case 1
        with len' show ?thesis by simp
      next
        case 2
        from rng [OF this] show ?thesis by simp
      qed
    qed
    have "length h \<le> length h'" using ih(2) by simp
    with run frame ih(4,5) cells debts dist range show ?thesis
      by (intro exI [of _ h'] exI [of _ "?r # cr"] exI [of _ dr]) simp
  next
    case debtor
    let ?r = "length h"
    let ?h1 = "h @ [CellObj name (fneg bal)]"
    let ?h2 = "?h1[dl := ListObj (drefs @ [?r])]"
    have app: "list_append ?h1 dl ?r = Some ?h2"
      using Cons.prems by (simp add: list_append_def get_list_def nth_append)
    have pre: "cl < length ?h2" "dl < length ?h2" "?h2 ! cl = ListObj crefs"
      "?h2 ! dl = ListObj (drefs @ [?r])"
      using Cons.prems by (simp_all add: nth_append)
    from Cons.IH [OF pre(1,2) Cons.prems(3) pre(3,4)]
    obtain h' cr dr where ih: "partition_store ?h2 cl dl rest = Some h'"
      "length ?h2 \<le> length h'"
      "\<forall>a < length ?h2. a \<noteq> cl \<longrightarrow> a \<noteq> dl \<longrightarrow> h' ! a = ?h2 ! a"
      "h' ! cl = ListObj (crefs @ cr)" "h' ! dl = ListObj ((drefs @ [?r]) @ dr)"
      "get_cells h' cr = Some (creditors_of rest)" "get_cells h' dr = Some (debtors_of rest)"
      "distinct (cr @ dr)" "\<forall>r \<in> set (cr @ dr). length ?h2 \<le> r \<and> r < length h'"
      by blast
    have run: "partition_store h cl dl (item # rest) = Some h'"
      using debtor app ih(1) by (simp add: item new_def)
    have frame: "\<forall>a < length h. a \<noteq> cl \<longrightarrow> a \<noteq> dl \<longrightarrow> h' ! a = h ! a"
      using ih(3) by (simp add: nth_append)
    have "h' ! ?r = CellObj name (fneg bal)"
      using ih(3) Cons.prems(1,2) by (simp add: nth_append)
    then have cell: "get_cell h' ?r = Some (name, fneg bal)"
      using ih(2) by (simp add: get_cell_Some)
    have cells: "get_cells h' cr = Some (creditors_of (item # rest))"
      using ih(6) debtor by (simp add: item creditors_of_Cons)
    have debts: "get_cells h' (?r # dr) = Some (debtors_of (item # rest))"
      using cell ih(7) debtor by (simp add: item debtors_of_Cons)
    have len': "Suc (length h) \<le> length h'"
      using ih(2) by simp
    have rng: "Suc (length h) \<le> r \<and> r < length h'" if "r \<in> set cr \<or> r \<in> set dr" for r
      using ih(9) that by auto
    then have "?r \<notin> set cr" "?r \<notin> set dr"
      by fastforce+
    then have dist: "distinct (cr @ ?r # dr)"
      using ih(8) by simp
    have range: "\<forall>r \<in> set (cr @ ?r # dr). length h \<le> r \<and> r < length h'"
    proof
      fix r assume "r \<in> set (cr @ ?r # dr)"
      then consider "r = ?r" | "r \<in> set cr \<or> r \<in> set dr" by auto
      then show "length h \<le> r \<and> r < length h'"
      proof cases
        case 1
        with len' show ?thesis by simp
      next
        case 2
        from rng [OF this] show ?thesis by simp
      qed
    qed
    have "length h \<le> length h'" using ih(2) by simp
    with run frame ih(4,5) cells debts dist range show ?thesis
      by (intro exI [of _ h'] exI [of _ cr] exI [of _ "?r # dr"]) simp
  next
    case neither
    from Cons.IH [OF Cons.prems]
    obtain h' cr dr where ih: "partition_store h cl dl rest = Some h'"
      "length h \<le> length h'"
      "\<forall>a < length h. a \<noteq> cl \<longrightarrow> a \<noteq> dl \<longrightarrow> h' ! a = h ! a"
      "h' ! cl = ListObj (crefs @ cr)" "h' ! dl = ListObj (drefs @ dr)"
      "get_cells h' cr = Some (creditors_of rest)" "get_cells h' dr = Some (debtors_of rest)"
      "distinct (cr @ dr)" "\<forall>r \<in> set (cr @ dr). length h \<le> r \<and> r < length h'"
      by blast
    have "partition_store h cl dl (item # rest) = Some h'"
      using neither ih(1) by (simp add: item)
    moreover have "creditors_of (item # rest) = creditors_of rest"
      "debtors_of (item # rest) = debtors_of rest"
      using neither by (simp_all add: item creditors_of_Cons debtors_of_Cons)
    ultimately show ?thesis
      using ih by (intro exI [of _ h'] exI [of _ cr] exI [of _ dr]) simp
  qed
qed

lemma insert_desc_map:
  "insert_desc (g a, k) (map (\<lambda>(a, k). (g a, k)) ys) =
     map (\<lambda>(a, k). (g a, k)) (insert_desc (a, k) ys)"
  by (induction ys) auto

lemma sort_desc_map:
  "sort_desc (map (\<lambda>(a, k). (g a, k)) xs) = map (\<lambda>(a, k). (g a, k)) (sort_desc xs)"
proof (induction xs)
  case Nil
  show ?case by (simp add: sort_desc_def)
next
  case (Cons x xs)
  obtain a k where x: "x = (a, k)" by (cases x)
  show ?case
    using Cons by (simp add: x sort_desc_Cons insert_desc_map)
qed

lemma get_cells_update_other:
  assumes "get_cells h rs = Some es" and "p \<notin> set rs"
  shows "get_cells (h[p := x]) rs = Some es"
proof (rule get_cells_same [OF _ _ assms(1)])
  show "\<forall>r \<in> set rs. r < length h \<longrightarrow> h[p := x] ! r = h ! r"
    using assms(2) by (metis nth_list_update_neq)
  show "length h \<le> length (h[p := x])" by simp
qed

lemma get_cells_update_at:
  assumes "get_cells h rs = Some es" and "distinct rs" and "i < length rs"
  shows "get_cells (h[rs ! i := CellObj name v]) rs = Some (es[i := (name, v)])"
proof -
  from assms(1) have len: "length es = length rs"
    and cell: "\<And>k. k < length rs \<Longrightarrow> get_cell h (rs ! k) = Some (es ! k)"
    by (simp_all add: get_cells_Some)
  have "get_cell (h[rs ! i := CellObj name v]) (rs ! k) = Some (es[i := (name, v)] ! k)"
    if k: "k < length rs" for k
  proof (cases "k = i")
    case True
    from cell [OF assms(3)] have "rs ! i < length h"
      by (metis get_cell_Some prod.collapse)
    with True len assms(3) show ?thesis by (simp add: get_cell_Some)
  next
    case False
    with assms(2,3) k have "rs ! k \<noteq> rs ! i"
      by (simp add: nth_eq_iff_index_eq)
    with cell [OF k] False show ?thesis
      by (metis get_cell_Some length_list_update nth_list_update_neq prod.collapse)
  qed
  with len show ?thesis by (simp add: get_cells_Some)
qed

lemma get_cells_is_cell:
  "get_cells h rs = Some es \<Longrightarrow> r \<in> set rs \<Longrightarrow> \<exists>name v. get_cell h r = Some (name, v)"
  by (metis get_cells_Some in_set_conv_nth prod.collapse)

lemma list_is_no_cell: "get_list h l = Some rs \<Longrightarrow> get_cells h rs' = Some es \<Longrightarrow> l \<notin> set rs'"
proof
  assume "get_list h l = Some rs" "get_cells h rs' = Some es" "l \<in> set rs'"
  then obtain name v where "h ! l = ListObj rs" "h ! l = CellObj name v"
    using get_cells_is_cell by (metis get_cell_Some get_list_Some)
  then show False by simp
qed

text \<open>Sorting the list object at \<open>l\<close> reorders its references as the values are sorted.\<close>

lemma sort_store_spec:
  assumes l: "get_list h l = Some rs" and cells: "get_cells h rs = Some es"
  defines "rs' \<equiv> map fst (sort_desc (zip rs (map snd es)))"
  shows "sort_store h l = Some (h[l := ListObj rs'])"
    and "get_cells (h[l := ListObj rs']) rs' = Some (sort_desc es)"
    and "set rs' = set rs"
    and "distinct rs \<Longrightarrow> distinct rs'"
proof -
  let ?xs = "zip rs (map snd es)"
  define f where "f r = the (get_cell h r)" for r
  from cells have len: "length es = length rs"
    and cell: "\<And>k. k < length rs \<Longrightarrow> get_cell h (rs ! k) = Some (es ! k)"
    by (simp_all add: get_cells_Some)
  have f: "get_cell h r = Some (f r)" if "r \<in> set rs" for r
    using that cell by (auto simp: f_def in_set_conv_nth)
  have es: "es = map f rs"
    using len cell by (intro nth_equalityI) (simp_all add: f_def)
  have fst_xs: "map fst ?xs = rs"
    using len by simp
  show "sort_store h l = Some (h[l := ListObj rs'])"
    using l cells by (simp add: sort_store_def rs'_def)
  show set: "set rs' = set rs"
    unfolding rs'_def by (metis fst_xs list.set_map set_sort_desc)
  show "distinct rs'" if "distinct rs"
    unfolding rs'_def using that fst_xs by (intro distinct_sort_desc) simp
  have key: "k = snd (f a)" if "(a, k) \<in> set (sort_desc ?xs)" for a k
  proof -
    from that have "(a, k) \<in> set ?xs" by (simp add: set_sort_desc)
    then show ?thesis by (auto simp: es in_set_zip)
  qed
  have "map (\<lambda>(a, k). (fst (f a), k)) ?xs = es"
    using len by (intro nth_equalityI) (simp_all add: es)
  then have "sort_desc es = map (\<lambda>(a, k). (fst (f a), k)) (sort_desc ?xs)"
    by (metis sort_desc_map)
  also have "\<dots> = map (\<lambda>(a, k). f a) (sort_desc ?xs)"
  proof (intro map_cong refl)
    fix x assume "x \<in> set (sort_desc ?xs)"
    then have "snd x = snd (f (fst x))"
      using key by (metis prod.collapse)
    then show "(case x of (a, k) \<Rightarrow> (fst (f a), k)) = (case x of (a, k) \<Rightarrow> f a)"
      by (simp add: case_prod_unfold prod_eq_iff)
  qed
  also have "\<dots> = map f rs'"
    by (simp add: rs'_def case_prod_unfold comp_def)
  finally have sorted: "sort_desc es = map f rs'" .
  have "get_cell h (rs' ! k) = Some (f (rs' ! k))" if "k < length rs'" for k
    using f set that by (metis nth_mem)
  then have "get_cells h rs' = Some (map f rs')"
    by (simp add: get_cells_Some)
  moreover have "l \<notin> set rs'"
    using l calculation by (rule list_is_no_cell)
  ultimately show "get_cells (h[l := ListObj rs']) rs' = Some (sort_desc es)"
    unfolding sorted by (rule get_cells_update_other)
qed

text \<open>
  One pass of the loop writes the two cells that the current references point to, and the
  entries they stand for change as in the loop on values.
\<close>

lemma sweep_rel_step:
  fixes d' c' :: pyfloat
  assumes rel: "sweep_rel h dl cl drefs crefs ds cs"
    and i: "i < length ds" and j: "j < length cs"
    and d: "ds ! i = (dn, d)" and c: "cs ! j = (cn, c)"
  defines "h1 \<equiv> h[drefs ! i := CellObj dn d']"
  defines "h2 \<equiv> h1[crefs ! j := CellObj cn c']"
  shows "get_cell h (drefs ! i) = Some (dn, d)"
    and "get_cell h (crefs ! j) = Some (cn, c)"
    and "set_amount h (drefs ! i) d' = Some h1"
    and "set_amount h1 (crefs ! j) c' = Some h2"
    and "sweep_rel h2 dl cl drefs crefs (ds[i := (dn, d')]) (cs[j := (cn, c')])"
    and "length h2 = length h"
    and "\<forall>a. a \<notin> set (drefs @ crefs) \<longrightarrow> h2 ! a = h ! a"
proof -
  from rel have dl: "get_list h dl = Some drefs" and cl: "get_list h cl = Some crefs"
    and dcells: "get_cells h drefs = Some ds" and ccells: "get_cells h crefs = Some cs"
    and dist: "distinct (drefs @ crefs)"
    by (simp_all add: sweep_rel_def)
  have len: "length ds = length drefs" "length cs = length crefs"
    using dcells ccells by (simp_all add: get_cells_Some)
  have pin: "drefs ! i \<in> set drefs" and qin: "crefs ! j \<in> set crefs"
    using i j len by simp_all
  then have neq: "drefs ! i \<noteq> crefs ! j" and p_out: "drefs ! i \<notin> set crefs"
    and q_out: "crefs ! j \<notin> set drefs"
    using dist by auto
  show gd: "get_cell h (drefs ! i) = Some (dn, d)"
    using dcells i d len by (simp add: get_cells_Some)
  show gc: "get_cell h (crefs ! j) = Some (cn, c)"
    using ccells j c len by (simp add: get_cells_Some)
  show "set_amount h (drefs ! i) d' = Some h1"
    using gd by (simp add: set_amount_def h1_def)
  have "get_cell h1 (crefs ! j) = Some (cn, c)"
    using gc neq by (simp add: get_cell_Some h1_def)
  then show "set_amount h1 (crefs ! j) c' = Some h2"
    by (simp add: set_amount_def h2_def)
  show "length h2 = length h"
    by (simp add: h1_def h2_def)
  show "\<forall>a. a \<notin> set (drefs @ crefs) \<longrightarrow> h2 ! a = h ! a"
  proof (intro allI impI)
    fix a assume "a \<notin> set (drefs @ crefs)"
    with pin qin have "a \<noteq> drefs ! i" "a \<noteq> crefs ! j" by auto
    then show "h2 ! a = h ! a" by (simp add: h1_def h2_def)
  qed
  have lists: "get_list h2 dl = Some drefs" "get_list h2 cl = Some crefs"
  proof -
    have "dl \<noteq> drefs ! i" "dl \<noteq> crefs ! j" "cl \<noteq> drefs ! i" "cl \<noteq> crefs ! j"
      using dl cl dcells ccells pin qin list_is_no_cell by metis+
    with dl cl show "get_list h2 dl = Some drefs" "get_list h2 cl = Some crefs"
      by (simp_all add: get_list_Some h1_def h2_def)
  qed
  have "get_cells h1 drefs = Some (ds[i := (dn, d')])"
    unfolding h1_def using dcells dist i len by (intro get_cells_update_at) simp_all
  then have d': "get_cells h2 drefs = Some (ds[i := (dn, d')])"
    unfolding h2_def using q_out by (rule get_cells_update_other)
  have "get_cells h1 crefs = Some cs"
    unfolding h1_def using ccells p_out by (rule get_cells_update_other)
  then have c': "get_cells h2 crefs = Some (cs[j := (cn, c')])"
    unfolding h2_def using dist j len by (intro get_cells_update_at) simp_all
  from lists d' c' dist
  show "sweep_rel h2 dl cl drefs crefs (ds[i := (dn, d')]) (cs[j := (cn, c')])"
    by (simp add: sweep_rel_def)
qed

text \<open>One pass of the loop on the store, written out for a state that stands for values.\<close>

lemma sweep_store_unfold:
  assumes rel: "sweep_rel h dl cl drefs crefs ds cs"
    and i: "i < length ds" and j: "j < length cs"
    and d: "ds ! i = (dn, d)" and c: "cs ! j = (cn, c)"
  shows "sweep_store h dl cl i j ts =
     sweep_store
       (h[drefs ! i := CellObj dn (round2 (fsub d (round2 (py_min d c)))),
          crefs ! j := CellObj cn (round2 (fsub c (round2 (py_min d c))))])
       dl cl
       (if flt (round2 (fsub d (round2 (py_min d c)))) (Fin (1 / 100)) then i + 1 else i)
       (if flt (round2 (fsub c (round2 (py_min d c)))) (Fin (1 / 100)) then j + 1 else j)
       (if flt (Fin 0) (round2 (py_min d c))
        then ts @ [(dn, cn, round2 (py_min d c))] else ts)"
proof -
  from rel have dl: "get_list h dl = Some drefs" and cl: "get_list h cl = Some crefs"
    and len: "length ds = length drefs" "length cs = length crefs"
    by (simp_all add: sweep_rel_def get_cells_Some)
  note step = sweep_rel_step [OF rel i j d c]
  show ?thesis
    using i j len
    by (subst sweep_store.simps) (simp add: dl cl step(1-4) Let_def)
qed

lemma sweep_store_exit:
  assumes "sweep_rel h dl cl drefs crefs ds cs" and "\<not> (i < length ds \<and> j < length cs)"
  shows "sweep_store h dl cl i j ts = Some (h, ts)"
proof -
  from assms(1) have dl: "get_list h dl = Some drefs" and cl: "get_list h cl = Some crefs"
    and len: "length ds = length drefs" "length cs = length crefs"
    by (simp_all add: sweep_rel_def get_cells_Some)
  show ?thesis
    using assms(2) len by (subst sweep_store.simps) (auto simp: dl cl)
qed

text \<open>
  What the loop on the store returns, the loop on values returns too, and it has written
  nothing but the cells behind the two lists.
\<close>

lemma sweep_store_sound:
  assumes "sweep_store h dl cl i j ts = Some y"
  shows "\<forall>ds cs. sweep_rel h dl cl drefs crefs ds cs \<longrightarrow>
     sweep ds cs i j ts = Some (snd y) \<and> length (fst y) = length h
     \<and> (\<forall>a. a \<notin> set (drefs @ crefs) \<longrightarrow> fst y ! a = h ! a)"
  using assms
proof (induction h dl cl i j ts y rule: sweep_store.raw_induct [rotated 1, consumes 1])
  case (1 sweep' h dl cl i j ts y)
  show ?case
  proof (intro allI impI)
    fix ds cs assume rel: "sweep_rel h dl cl drefs crefs ds cs"
    then have dl: "get_list h dl = Some drefs" and cl: "get_list h cl = Some crefs"
      and len: "length ds = length drefs" "length cs = length crefs"
      by (simp_all add: sweep_rel_def get_cells_Some)
    show "sweep ds cs i j ts = Some (snd y) \<and> length (fst y) = length h
       \<and> (\<forall>a. a \<notin> set (drefs @ crefs) \<longrightarrow> fst y ! a = h ! a)"
    proof (cases "i < length ds \<and> j < length cs")
      case False
      with 1(2) len have "y = (h, ts)"
        by (auto simp: dl cl)
      moreover from False have "sweep ds cs i j ts = Some ts"
        by (subst sweep.simps) auto
      ultimately show ?thesis by simp
    next
      case True
      obtain dn d cn c where d: "ds ! i = (dn, d)" and c: "cs ! j = (cn, c)"
        by (metis prod.collapse)
      let ?amount = "round2 (py_min d c)"
      let ?d' = "round2 (fsub d ?amount)" and ?c' = "round2 (fsub c ?amount)"
      let ?h2 = "h[drefs ! i := CellObj dn ?d', crefs ! j := CellObj cn ?c']"
      let ?i = "if flt ?d' (Fin (1 / 100)) then i + 1 else i"
      let ?j = "if flt ?c' (Fin (1 / 100)) then j + 1 else j"
      let ?ts = "if flt (Fin 0) ?amount then ts @ [(dn, cn, ?amount)] else ts"
      note step = sweep_rel_step [OF rel _ _ d c]
      from True have i: "i < length ds" and j: "j < length cs" by simp_all
      have "sweep' ?h2 dl cl ?i ?j ?ts = Some y"
        using 1(2) True len by (simp add: dl cl step(1-4) [OF i j] Let_def)
      from 1(1) [OF this] step(5) [OF i j]
      have ih: "sweep (ds[i := (dn, ?d')]) (cs[j := (cn, ?c')]) ?i ?j ?ts = Some (snd y)"
        "length (fst y) = length ?h2"
        "\<forall>a. a \<notin> set (drefs @ crefs) \<longrightarrow> fst y ! a = ?h2 ! a"
        by blast+
      have "sweep ds cs i j ts = Some (snd y)"
        using True ih(1) by (subst sweep.simps) (simp add: sweep_step_eq [OF d c])
      moreover have "length (fst y) = length h"
        using ih(2) by simp
      moreover have "\<forall>a. a \<notin> set (drefs @ crefs) \<longrightarrow> fst y ! a = h ! a"
        using ih(3) step(7) [OF i j] by simp
      ultimately show ?thesis by blast
    qed
  qed
qed

text \<open>Conversely, when the loop on values returns, so does the loop on the store.\<close>

lemma sweep_store_complete:
  assumes "sweep ds cs i j ts = Some r"
  shows "\<forall>h. sweep_rel h dl cl drefs crefs ds cs \<longrightarrow>
     (\<exists>h'. sweep_store h dl cl i j ts = Some (h', r))"
  using assms
proof (induction ds cs i j ts r rule: sweep.raw_induct [rotated 1, consumes 1])
  case (1 sweep' ds cs i j ts r)
  show ?case
  proof (intro allI impI)
    fix h assume rel: "sweep_rel h dl cl drefs crefs ds cs"
    show "\<exists>h'. sweep_store h dl cl i j ts = Some (h', r)"
    proof (cases "i < length ds \<and> j < length cs")
      case False
      with 1(2) have "r = ts" by auto
      with sweep_store_exit [OF rel False] show ?thesis by blast
    next
      case True
      obtain dn d cn c where d: "ds ! i = (dn, d)" and c: "cs ! j = (cn, c)"
        by (metis prod.collapse)
      let ?amount = "round2 (py_min d c)"
      let ?d' = "round2 (fsub d ?amount)" and ?c' = "round2 (fsub c ?amount)"
      let ?h2 = "h[drefs ! i := CellObj dn ?d', crefs ! j := CellObj cn ?c']"
      let ?i = "if flt ?d' (Fin (1 / 100)) then i + 1 else i"
      let ?j = "if flt ?c' (Fin (1 / 100)) then j + 1 else j"
      let ?ts = "if flt (Fin 0) ?amount then ts @ [(dn, cn, ?amount)] else ts"
      from True have i: "i < length ds" and j: "j < length cs" by simp_all
      have "sweep' (ds[i := (dn, ?d')]) (cs[j := (cn, ?c')]) ?i ?j ?ts = Some r"
        using 1(2) True by (simp add: sweep_step_eq [OF d c])
      from 1(1) [OF this] sweep_rel_step(5) [OF rel i j d c]
      obtain h' where "sweep_store ?h2 dl cl ?i ?j ?ts = Some (h', r)"
        by blast
      then show ?thesis
        unfolding sweep_store_unfold [OF rel i j d c] by blast
    qed
  qed
qed

text \<open>
  Up to the loop, \<^verbatim>\<open>settle_debts\<close> makes the two lists and the cells behind them at
  new addresses and leaves every object that was in the store as it was.
\<close>

lemma settle_debts_store_prepare:
  assumes "get_dict h a = Some d"
  shows "\<exists>h5 drefs crefs.
       settle_debts_store h a = sweep_store h5 (Suc (length h)) (length h) 0 0 []
     \<and> sweep_rel h5 (Suc (length h)) (length h) drefs crefs
         (sort_desc (debtors_of d)) (sort_desc (creditors_of d))
     \<and> length h \<le> length h5 \<and> (\<forall>x < length h. h5 ! x = h ! x)
     \<and> (\<forall>r \<in> set (drefs @ crefs). length h \<le> r)"
proof -
  let ?cl = "length h" and ?dl = "Suc (length h)"
  let ?h2 = "(h @ [ListObj []]) @ [ListObj []]"
  have pre: "?cl < length ?h2" "?dl < length ?h2" "?cl \<noteq> ?dl"
    "?h2 ! ?cl = ListObj []" "?h2 ! ?dl = ListObj []"
    by (simp_all add: nth_append)
  from partition_store_spec [OF pre, of d]
  obtain h3 cr dr where p: "partition_store ?h2 ?cl ?dl d = Some h3"
    "length ?h2 \<le> length h3"
    "\<forall>x < length ?h2. x \<noteq> ?cl \<longrightarrow> x \<noteq> ?dl \<longrightarrow> h3 ! x = ?h2 ! x"
    "h3 ! ?cl = ListObj cr" "h3 ! ?dl = ListObj dr"
    "get_cells h3 cr = Some (creditors_of d)" "get_cells h3 dr = Some (debtors_of d)"
    "distinct (cr @ dr)" "\<forall>r \<in> set (cr @ dr). length ?h2 \<le> r \<and> r < length h3"
    by auto
  have fresh: "Suc (Suc (length h)) \<le> r" if "r \<in> set cr \<or> r \<in> set dr" for r
    using p(9) that by auto
  have len3: "Suc (Suc (length h)) \<le> length h3"
    using p(2) by simp
  define cr' where "cr' = map fst (sort_desc (zip cr (map snd (creditors_of d))))"
  define dr' where "dr' = map fst (sort_desc (zip dr (map snd (debtors_of d))))"
  let ?h4 = "h3[?cl := ListObj cr']"
  let ?h5 = "?h4[?dl := ListObj dr']"
  have cl3: "get_list h3 ?cl = Some cr"
    using p(4) len3 by (simp add: get_list_Some)
  note s1 = sort_store_spec [OF cl3 p(6), folded cr'_def]
  have dl4: "get_list ?h4 ?dl = Some dr"
    using p(5) len3 by (simp add: get_list_Some)
  have "?cl \<notin> set dr"
    using fresh by fastforce
  with p(7) have cells4: "get_cells ?h4 dr = Some (debtors_of d)"
    by (rule get_cells_update_other)
  note s2 = sort_store_spec [OF dl4 cells4, folded dr'_def]
  have "?dl \<notin> set cr'"
    using fresh s1(3) by fastforce
  with s1(2) have c5: "get_cells ?h5 cr' = Some (sort_desc (creditors_of d))"
    by (rule get_cells_update_other)
  have lists5: "get_list ?h5 ?dl = Some dr'" "get_list ?h5 ?cl = Some cr'"
    using len3 by (simp_all add: get_list_Some)
  have "distinct dr'" "distinct cr'" "set dr' \<inter> set cr' = {}"
    using p(8) s1(3,4) s2(3,4) by auto
  then have dist5: "distinct (dr' @ cr')"
    by simp
  have rel: "sweep_rel ?h5 ?dl ?cl dr' cr' (sort_desc (debtors_of d)) (sort_desc (creditors_of d))"
    using lists5 s2(2) c5 dist5 by (simp add: sweep_rel_def)
  have run: "settle_debts_store h a = sweep_store ?h5 ?dl ?cl 0 0 []"
    using assms p(1) s1(1) s2(1) by (simp add: settle_debts_store_def new_def)
  have frame: "\<forall>x < length h. ?h5 ! x = h ! x"
    using p(3) by (simp add: nth_append)
  have refs: "\<forall>r \<in> set (dr' @ cr'). length h \<le> r"
  proof
    fix r assume "r \<in> set (dr' @ cr')"
    then have "r \<in> set cr \<or> r \<in> set dr"
      using s1(3) s2(3) by auto
    from fresh [OF this] show "length h \<le> r" by simp
  qed
  have "length h \<le> length ?h5"
    using len3 by simp
  with run rel frame refs show ?thesis
    by blast
qed

text \<open>
  The call on the store and the function on values return the same transactions, and
  the call leaves the store it was given as it was, with new objects after it.
\<close>

lemma settle_debts_store_sound:
  assumes d: "get_dict h a = Some d"
    and run: "settle_debts_store h a = Some (h', ts)"
  shows "take (length h) h' = h \<and> get_dict h' a = Some d \<and> settle_debts d = Some ts"
proof -
  from settle_debts_store_prepare [OF d]
  obtain h5 drefs crefs
    where eq: "settle_debts_store h a = sweep_store h5 (Suc (length h)) (length h) 0 0 []"
      and rel: "sweep_rel h5 (Suc (length h)) (length h) drefs crefs
         (sort_desc (debtors_of d)) (sort_desc (creditors_of d))"
      and len: "length h \<le> length h5" and frame: "\<forall>x < length h. h5 ! x = h ! x"
      and refs: "\<forall>r \<in> set (drefs @ crefs). length h \<le> r"
    by blast
  from run eq have "sweep_store h5 (Suc (length h)) (length h) 0 0 [] = Some (h', ts)"
    by simp
  from sweep_store_sound [OF this, of drefs crefs] rel
  have res: "sweep (sort_desc (debtors_of d)) (sort_desc (creditors_of d)) 0 0 [] = Some ts"
    and len': "length h' = length h5"
    and same: "\<forall>x. x \<notin> set (drefs @ crefs) \<longrightarrow> h' ! x = h5 ! x"
    by auto
  have keep: "h' ! x = h ! x" if "x < length h" for x
  proof -
    from that refs have "x \<notin> set (drefs @ crefs)" by fastforce
    with same frame that show ?thesis by simp
  qed
  have "take (length h) h' = h"
    using len len' keep by (intro nth_equalityI) simp_all
  moreover have "get_dict h' a = Some d"
    using d keep len len' by (simp add: get_dict_Some)
  moreover have "settle_debts d = Some ts"
    using res by (simp add: settle_debts_sweep)
  ultimately show ?thesis by blast
qed

lemma settle_debts_store_complete:
  assumes d: "get_dict h a = Some d"
    and res: "settle_debts d = Some ts"
  shows "\<exists>h'. settle_debts_store h a = Some (h', ts)"
proof -
  from settle_debts_store_prepare [OF d]
  obtain h5 drefs crefs
    where eq: "settle_debts_store h a = sweep_store h5 (Suc (length h)) (length h) 0 0 []"
      and rel: "sweep_rel h5 (Suc (length h)) (length h) drefs crefs
         (sort_desc (debtors_of d)) (sort_desc (creditors_of d))"
    by blast
  from res have "sweep (sort_desc (debtors_of d)) (sort_desc (creditors_of d)) 0 0 [] = Some ts"
    by (simp add: settle_debts_sweep)
  from sweep_store_complete [OF this] rel eq show ?thesis
    by metis
qed

text \<open>
  C8. \<^verbatim>\<open>settle_debts\<close> does not modify its input: when the call returns, the dict it
  was given holds the same keys and values, and so does every other object that was in
  the store; the loop has written only to lists made during the call. The call returns
  the transactions of the function on values, and returns whenever that one does.
\<close>

theorem settle_debts_keeps_input:
  assumes "get_dict h balances = Some d"
  shows "(\<forall>h' ts. settle_debts_store h balances = Some (h', ts) \<longrightarrow>
            take (length h) h' = h \<and> get_dict h' balances = Some d \<and> settle_debts d = Some ts)
    \<and> (\<forall>ts. settle_debts d = Some ts \<longrightarrow>
          (\<exists>h'. settle_debts_store h balances = Some (h', ts)))"
  using assms settle_debts_store_sound settle_debts_store_complete by blast

theorem settle_debts_keeps_input_witness:
  "get_dict [DictObj [(''A'', Fin 30), (''B'', Fin (- 30)), (''C'', Fin 0)]] 0 =
     Some [(''A'', Fin 30), (''B'', Fin (- 30)), (''C'', Fin 0)]
   \<and> settle_debts_store [DictObj [(''A'', Fin 30), (''B'', Fin (- 30)), (''C'', Fin 0)]] 0 =
     Some ([DictObj [(''A'', Fin 30), (''B'', Fin (- 30)), (''C'', Fin 0)],
            ListObj [3], ListObj [4], CellObj ''A'' (Fin 0), CellObj ''B'' (Fin 0)],
           [(''B'', ''A'', Fin 30)])
   \<and> take (length [DictObj [(''A'', Fin 30), (''B'', Fin (- 30)), (''C'', Fin 0)]])
        [DictObj [(''A'', Fin 30), (''B'', Fin (- 30)), (''C'', Fin 0)],
         ListObj [3], ListObj [4], CellObj ''A'' (Fin 0), CellObj ''B'' (Fin 0)] =
     [DictObj [(''A'', Fin 30), (''B'', Fin (- 30)), (''C'', Fin 0)]]
   \<and> settle_debts [(''A'', Fin 30), (''B'', Fin (- 30)), (''C'', Fin 0)] =
     Some [(''B'', ''A'', Fin 30)]"
proof -
  let ?d = "[(''A'', Fin 30), (''B'', Fin (- 30)), (''C'', Fin 0)]"
  let ?h' = "[DictObj ?d, ListObj [3], ListObj [4], CellObj ''A'' (Fin 0), CellObj ''B'' (Fin 0)]"
  have d: "get_dict [DictObj ?d] 0 = Some ?d"
    by (simp add: get_dict_def)
  have run: "settle_debts_store [DictObj ?d] 0 = Some (?h', [(''B'', ''A'', Fin 30)])"
    by code_simp
  from settle_debts_keeps_input [OF d] run
  have "take (length [DictObj ?d]) ?h' = [DictObj ?d]
      \<and> settle_debts ?d = Some [(''B'', ''A'', Fin 30)]"
    by blast
  with d run show ?thesis by blast
qed

text \<open>
  C7. A run of \<^verbatim>\<open>compute_balances\<close> followed by \<^verbatim>\<open>settle_debts\<close> depends on its
  inputs only: if it returns from one store, then from any other store, the one the
  first run left behind included, it returns the same total, the same share, a mapping
  with the same keys and values and the same transactions; and these are the results of
  the functions on values.
\<close>

theorem runs_agree:
  assumes first: "compute_balances_store h0 names amounts =
      Some (h1, total_expense, equal_share, balances)"
    and second: "settle_debts_store h1 balances = Some (h2, transactions)"
  shows "(\<forall>g. \<exists>g1 balances' g2.
            compute_balances_store g names amounts =
              Some (g1, total_expense, equal_share, balances')
          \<and> settle_debts_store g1 balances' = Some (g2, transactions)
          \<and> get_dict g2 balances' = get_dict h2 balances)
    \<and> (\<exists>d. get_dict h2 balances = Some d
          \<and> compute_balances names amounts = (total_expense, equal_share, d)
          \<and> settle_debts d = Some transactions)"
proof -
  obtain d where pure: "compute_balances names amounts = (total_expense, equal_share, d)"
    and h1: "h1 = h0 @ [DictObj d]" and a: "balances = length h0"
    using first by (auto simp: compute_balances_store_eq split: prod.splits)
  have d1: "get_dict h1 balances = Some d"
    by (simp add: h1 a get_dict_def)
  from settle_debts_store_sound [OF d1 second]
  have d2: "get_dict h2 balances = Some d" and ts: "settle_debts d = Some transactions"
    by blast+
  have "\<exists>g1 balances' g2.
      compute_balances_store g names amounts = Some (g1, total_expense, equal_share, balances')
      \<and> settle_debts_store g1 balances' = Some (g2, transactions)
      \<and> get_dict g2 balances' = get_dict h2 balances" for g
  proof -
    let ?g1 = "g @ [DictObj d]"
    have c: "compute_balances_store g names amounts =
        Some (?g1, total_expense, equal_share, length g)"
      by (simp add: compute_balances_store_eq pure)
    have dg: "get_dict ?g1 (length g) = Some d"
      by (simp add: get_dict_def)
    from settle_debts_store_complete [OF dg ts]
    obtain g2 where s: "settle_debts_store ?g1 (length g) = Some (g2, transactions)"
      by blast
    from settle_debts_store_sound [OF dg s] have "get_dict g2 (length g) = Some d"
      by blast
    with c s d2 show ?thesis by metis
  qed
  with d2 pure ts show ?thesis by blast
qed

theorem runs_agree_witness:
  "compute_balances_store [] [''A'', ''B'', ''C''] [Fin 90, Fin 30, Fin 60] =
     Some ([DictObj [(''A'', Fin 30), (''B'', Fin (- 30)), (''C'', Fin 0)]], Fin 180, Fin 60, 0)
   \<and> settle_debts_store [DictObj [(''A'', Fin 30), (''B'', Fin (- 30)), (''C'', Fin 0)]] 0 =
     Some ([DictObj [(''A'', Fin 30), (''B'', Fin (- 30)), (''C'', Fin 0)],
            ListObj [3], ListObj [4], CellObj ''A'' (Fin 0), CellObj ''B'' (Fin 0)],
           [(''B'', ''A'', Fin 30)])
   \<and> (\<exists>g1 balances' g2.
        compute_balances_store
          [DictObj [(''A'', Fin 30), (''B'', Fin (- 30)), (''C'', Fin 0)],
           ListObj [3], ListObj [4], CellObj ''A'' (Fin 0), CellObj ''B'' (Fin 0)]
          [''A'', ''B'', ''C''] [Fin 90, Fin 30, Fin 60] =
          Some (g1, Fin 180, Fin 60, balances')
      \<and> settle_debts_store g1 balances' = Some (g2, [(''B'', ''A'', Fin 30)])
      \<and> get_dict g2 balances' =
          get_dict [DictObj [(''A'', Fin 30), (''B'', Fin (- 30)), (''C'', Fin 0)],
                    ListObj [3], ListObj [4], CellObj ''A'' (Fin 0), CellObj ''B'' (Fin 0)] 0)"
proof -
  let ?d = "[(''A'', Fin 30), (''B'', Fin (- 30)), (''C'', Fin 0)]"
  let ?h2 = "[DictObj ?d, ListObj [3], ListObj [4], CellObj ''A'' (Fin 0), CellObj ''B'' (Fin 0)]"
  have first: "compute_balances_store [] [''A'', ''B'', ''C''] [Fin 90, Fin 30, Fin 60] =
      Some ([DictObj ?d], Fin 180, Fin 60, 0)"
    by code_simp
  have second: "settle_debts_store [DictObj ?d] 0 = Some (?h2, [(''B'', ''A'', Fin 30)])"
    by code_simp
  from runs_agree [OF first second]
  have "\<exists>g1 balances' g2.
      compute_balances_store ?h2 [''A'', ''B'', ''C''] [Fin 90, Fin 30, Fin 60] =
        Some (g1, Fin 180, Fin 60, balances')
      \<and> settle_debts_store g1 balances' = Some (g2, [(''B'', ''A'', Fin 30)])
      \<and> get_dict g2 balances' = get_dict ?h2 0"
    by blast
  with first second show ?thesis by blast
qed

end
